theory Spec2Isabelle
  imports Main "HOL-Library.AList" "HOL-Library.Sublist"
begin

section \<open>Values and objects\<close>

text \<open>
  A setting value as the sources produce it: a string, a number, a boolean, an array or a
  nested object; \<open>Undefined\<close> is JavaScript's \<^verbatim>\<open>undefined\<close> (the settings object
  is typed \<^verbatim>\<open>{ [k: string]: string | undefined }\<close>, and \<^verbatim>\<open>get\<close> returns it for an
  unknown name). The payload of a number is never inspected by the code.

  An object is the list of its own enumerable properties in enumeration order; a key
  occurs once in it. Assigning to a key that is already there keeps its place, a new key
  goes to the end: that is \<^const>\<open>AList.update\<close>. (JavaScript enumerates keys that are
  array indices first; they are not setting names, and no statement below depends on
  where a new key is placed.)
\<close>

datatype jsval =
    Undefined
  | Str string
  | Num int
  | Bool bool
  | Arr "jsval list"
  | Obj "(string \<times> jsval) list"

type_synonym obj = "(string \<times> jsval) list"

definition keys :: "obj \<Rightarrow> string set" where
  "keys ob = fst ` set ob"

section \<open>The key normalizer\<close>

text \<open>
  \<^verbatim>\<open>key.replace('resin', 'balena')\<close>: \<^verbatim>\<open>String.prototype.replace\<close> with a string
  pattern replaces the first occurrence of the pattern only, and returns the string
  unchanged when the pattern does not occur.
\<close>

fun replace :: "string \<Rightarrow> string \<Rightarrow> string \<Rightarrow> string" where
  "replace pat rep [] = (if pat = [] then rep else [])"
| "replace pat rep (c # cs) =
     (if prefix pat (c # cs) then rep @ drop (length pat) (c # cs)
      else c # replace pat rep cs)"

text \<open>
  lodash's \<^verbatim>\<open>_.mapKeys(object, iteratee)\<close>: starting from an empty result, for every
  own property in enumeration order, \<^verbatim>\<open>result[iteratee(value, key)] = value\<close>.
\<close>

definition mapKeys :: "(jsval \<Rightarrow> string \<Rightarrow> string) \<Rightarrow> obj \<Rightarrow> obj" where
  "mapKeys iteratee ob = foldl (\<lambda>result (key, v). AList.update (iteratee v key) v result) [] ob"

definition replaceResinKeys :: "obj \<Rightarrow> obj" where
  "replaceResinKeys parsedConfig = mapKeys (\<lambda>v key. replace ''resin'' ''balena'' key) parsedConfig"

section \<open>Collaborators that are not part of the settings module\<close>

text \<open>
  Modelled from the spec: \<^verbatim>\<open>utils.mergeObjects\<close>, whose source is missing. The spec's
  words: the sources are "each merged left-to-right into an accumulator"; "for scalar
  values, later source overwrites earlier. For nested object-valued settings, merge
  recursively key-by-key (later wins per leaf), not a wholesale replacement of the parent
  object. Arrays are treated as scalars (wholesale replacement, not element-wise merge)."
  \<open>merge_val old new\<close> is the value stored under a key that held \<open>old\<close> when a later
  source brings \<open>new\<close>; \<open>merge_entries target source\<close> merges one source into the
  accumulator.
\<close>

fun merge_val :: "jsval \<Rightarrow> jsval \<Rightarrow> jsval"
  and merge_entries :: "obj \<Rightarrow> obj \<Rightarrow> obj" where
  "merge_val (Obj target) (Obj source) = Obj (merge_entries target source)"
| "merge_val old new = new"
| "merge_entries target [] = target"
| "merge_entries target ((key, v) # source) =
     merge_entries
       (AList.update key
          (case map_of target key of None \<Rightarrow> v | Some old \<Rightarrow> merge_val old v) target)
       source"

text \<open>
  Modelled from the spec: \<^verbatim>\<open>utils.evaluateSetting\<close>, whose source is missing. The spec's
  words: it "looks up \<open>name\<close> in the ResolvedConfiguration and evaluates it: if the stored
  value is itself the string name of another setting (an indirection/alias), resolve
  through that indirection (one level)"; it "returns undefined/absent if the name is not
  present anywhere in the resolved configuration (no error is thrown for unknown names)".
\<close>

definition resolveAlias :: "obj \<Rightarrow> jsval \<Rightarrow> jsval" where
  "resolveAlias settings v =
     (case v of
        Str other \<Rightarrow> (case map_of settings other of None \<Rightarrow> v | Some target \<Rightarrow> target)
      | _ \<Rightarrow> v)"

text \<open>
  What a call can throw: the file system's error, passed on unchanged (its code), or the
  \<^verbatim>\<open>Error\<close> that \<^verbatim>\<open>readConfigFile\<close> builds (its message).
\<close>

datatype error = FsError string | Error string

text \<open>
  What the module reads from outside, as parameters: the file system (what
  \<^verbatim>\<open>fs.readFileSync\<close> does at each path: it returns the text, or throws an error that
  carries a \<^verbatim>\<open>code\<close>), the parser \<^verbatim>\<open>yaml.parse\<close> (it returns an object, or throws an
  error with a message), the four paths of \<^verbatim>\<open>config.paths\<close>, and the mapping
  \<^verbatim>\<open>environment.parse(process.env)\<close>. The last parameter is what
  \<^verbatim>\<open>utils.evaluateSetting\<close> does when it is handed \<^verbatim>\<open>undefined\<close> instead of a
  settings object (a value or an error, for each name): the spec speaks of a resolved
  configuration only, so nothing is assumed about that case.
\<close>

datatype fs_result = FileContents string | FsThrows string

record config_paths =
  userLegacy :: string
  user :: string
  projectLegacy :: string
  project :: string

record world =
  readFileSync :: "string \<Rightarrow> fs_result"
  yaml_parse :: "string \<Rightarrow> string + obj"
  paths :: config_paths
  environment_parse :: obj
  evaluate_undefined :: "string \<Rightarrow> error + jsval"

text \<open>
  Modelled from the spec: \<^verbatim>\<open>utils.evaluateSetting(settings, name)\<close>, whose source is
  missing. On a settings object it looks the name up and evaluates the value with
  \<open>resolveAlias\<close>, or returns \<^verbatim>\<open>undefined\<close> for a name that is not present (the words
  of the spec are quoted above \<open>resolveAlias\<close>); on \<^verbatim>\<open>undefined\<close> settings (\<open>None\<close>) it
  does what the parameter says.
\<close>

definition evaluateSetting :: "world \<Rightarrow> obj option \<Rightarrow> string \<Rightarrow> error + jsval" where
  "evaluateSetting w settings name =
     (case settings of
        None \<Rightarrow> evaluate_undefined w name
      | Some ob \<Rightarrow>
          Inr (case map_of ob name of None \<Rightarrow> Undefined | Some v \<Rightarrow> resolveAlias ob v))"

section \<open>The source reader\<close>

definition readConfigFile :: "world \<Rightarrow> string \<Rightarrow> error + obj" where
  "readConfigFile w file =
     (case readFileSync w file of
        FsThrows code \<Rightarrow> (if code = ''ENOENT'' then Inr [] else Inl (FsError code))
      | FileContents fileContents \<Rightarrow>
          (case yaml_parse w fileContents of
             Inr parsed \<Rightarrow> Inr parsed
           | Inl message \<Rightarrow>
               Inl (Error (''Error parsing config file '' @ file @ '': '' @ message))))"

section \<open>The process state\<close>

text \<open>
  The objects whose identity matters live in a store, by reference: the module-level
  \<^verbatim>\<open>defaults\<close> object, at \<open>defaults_ref\<close>, and every object literal that
  \<^verbatim>\<open>getSettings\<close> creates as the accumulator of the merge. The objects that one
  expression creates and the next consumes (a parsed file, a normalized mapping, the
  result of \<^verbatim>\<open>getAll\<close>) are passed by value.

  \<open>once_n\<close> and \<open>once_result\<close> are the two variables in the closure of
  \<^verbatim>\<open>_.once(func)\<close>, which is \<^verbatim>\<open>_.before(2, func)\<close>: the counter \<^verbatim>\<open>n\<close>, 2 at
  the start, and \<^verbatim>\<open>result\<close>, \<^verbatim>\<open>undefined\<close> (\<open>None\<close>) at the start. \<open>reads\<close> records
  every invocation of \<^verbatim>\<open>readConfigFile\<close>, which reads its file once, in order.
\<close>

record state =
  heap :: "nat \<Rightarrow> obj"
  next_ref :: nat
  once_n :: int
  once_result :: "nat option"
  reads :: "string list"

definition defaults_ref :: nat where
  "defaults_ref = 0"

definition process_start :: "obj \<Rightarrow> state" where
  "process_start defaults =
     \<lparr>heap = (\<lambda>_. [])(defaults_ref := defaults), next_ref = Suc defaults_ref,
      once_n = 2, once_result = None, reads = []\<rparr>"

definition new_object :: "state \<Rightarrow> nat \<times> state" where
  "new_object s =
     (next_ref s, s\<lparr>heap := (heap s)(next_ref s := []), next_ref := Suc (next_ref s)\<rparr>)"

definition readConfigFile_counted :: "world \<Rightarrow> string \<Rightarrow> state \<Rightarrow> (error + obj) \<times> state" where
  "readConfigFile_counted w file s = (readConfigFile w file, s\<lparr>reads := reads s @ [file]\<rparr>)"

text \<open>
  Modelled from the spec: the call \<^verbatim>\<open>utils.mergeObjects(target, ...sources)\<close>, whose
  source is missing: the sources are "each merged left-to-right into an accumulator", the
  first argument, which is updated in place and returned.
\<close>

definition mergeObjects :: "nat \<Rightarrow> obj list \<Rightarrow> state \<Rightarrow> nat \<times> state" where
  "mergeObjects target sources s =
     (target, s\<lparr>heap := (heap s)(target := foldl merge_entries (heap s target) sources)\<rparr>)"

section \<open>The settings merger\<close>

text \<open>
  The function that \<^verbatim>\<open>_.once\<close> wraps. JavaScript evaluates the arguments of the call
  left to right: the literal \<^verbatim>\<open>{}\<close>, \<^verbatim>\<open>defaults\<close>, the four files in the order
  written, the environment; the first read that throws ends the evaluation.
\<close>

definition getSettings_body :: "world \<Rightarrow> state \<Rightarrow> (error + nat) \<times> state" where
  "getSettings_body w s =
     (case new_object s of (acc, s0) \<Rightarrow>
      (case readConfigFile_counted w (userLegacy (paths w)) s0 of
         (Inl e, s1) \<Rightarrow> (Inl e, s1)
       | (Inr ul, s1) \<Rightarrow>
      (case readConfigFile_counted w (user (paths w)) s1 of
         (Inl e, s2) \<Rightarrow> (Inl e, s2)
       | (Inr u, s2) \<Rightarrow>
      (case readConfigFile_counted w (projectLegacy (paths w)) s2 of
         (Inl e, s3) \<Rightarrow> (Inl e, s3)
       | (Inr pl, s3) \<Rightarrow>
      (case readConfigFile_counted w (project (paths w)) s3 of
         (Inl e, s4) \<Rightarrow> (Inl e, s4)
       | (Inr p, s4) \<Rightarrow>
      (case mergeObjects acc
              [heap s4 defaults_ref, replaceResinKeys ul, u, replaceResinKeys pl, p,
               environment_parse w] s4 of
         (r, s5) \<Rightarrow> (Inr r, s5)))))))"

text \<open>
  \<^verbatim>\<open>_.once(func)\<close>, that is lodash's \<^verbatim>\<open>before(2, func)\<close>:
  \<^verbatim>\<open>if (--n > 0) { result = func.apply(this, arguments); } if (n <= 1) { func = undefined; } return result;\<close>
  The counter is decremented before \<^verbatim>\<open>func\<close> runs, so it stays decremented when
  \<^verbatim>\<open>func\<close> throws, and \<^verbatim>\<open>result\<close> is assigned only when \<^verbatim>\<open>func\<close> returns. The
  call returns a reference to the settings object, or \<^verbatim>\<open>undefined\<close> (\<open>None\<close>).
\<close>

definition getSettings :: "world \<Rightarrow> state \<Rightarrow> (error + nat option) \<times> state" where
  "getSettings w s =
     (let s1 = s\<lparr>once_n := once_n s - 1\<rparr> in
      if once_n s1 > 0 then
        (case getSettings_body w s1 of
           (Inl e, s2) \<Rightarrow> (Inl e, s2)
         | (Inr r, s2) \<Rightarrow> (Inr (Some r), s2\<lparr>once_result := Some r\<rparr>))
      else (Inr (once_result s1), s1))"

section \<open>The setting accessor\<close>

definition get :: "world \<Rightarrow> string \<Rightarrow> state \<Rightarrow> (error + jsval) \<times> state" where
  "get w name s =
     (case getSettings w s of
        (Inl e, s') \<Rightarrow> (Inl e, s')
      | (Inr settings, s') \<Rightarrow> (evaluateSetting w (map_option (heap s') settings) name, s'))"

text \<open>
  lodash's \<^verbatim>\<open>_.mapValues(object, iteratee)\<close>: starting from an empty result, for every
  own property in enumeration order, \<^verbatim>\<open>result[key] = iteratee(value, key)\<close>; nothing
  is iterated when \<^verbatim>\<open>object\<close> is \<^verbatim>\<open>undefined\<close>. The iteratee here calls \<^verbatim>\<open>get\<close>,
  so it runs in the state and can throw.
\<close>

fun mapValues ::
  "(jsval \<Rightarrow> string \<Rightarrow> state \<Rightarrow> (error + jsval) \<times> state) \<Rightarrow> obj \<Rightarrow> obj \<Rightarrow> state
     \<Rightarrow> (error + obj) \<times> state" where
  "mapValues iteratee [] result s = (Inr result, s)"
| "mapValues iteratee ((key, v) # rest) result s =
     (case iteratee v key s of
        (Inl e, s') \<Rightarrow> (Inl e, s')
      | (Inr v', s') \<Rightarrow> mapValues iteratee rest (AList.update key v' result) s')"

definition getAll :: "world \<Rightarrow> state \<Rightarrow> (error + obj) \<times> state" where
  "getAll w s =
     (case getSettings w s of
        (Inl e, s') \<Rightarrow> (Inl e, s')
      | (Inr settings, s') \<Rightarrow>
          mapValues (\<lambda>setting name. get w name)
            (case settings of None \<Rightarrow> [] | Some r \<Rightarrow> heap s' r) [] s')"

text \<open>A process calls the two public operations in some order.\<close>

datatype call = Get string | GetAll

fun call_state :: "world \<Rightarrow> call \<Rightarrow> state \<Rightarrow> state" where
  "call_state w (Get name) s = snd (get w name s)"
| "call_state w GetAll s = snd (getAll w s)"

fun after_calls :: "world \<Rightarrow> call list \<Rightarrow> state \<Rightarrow> state" where
  "after_calls w [] s = s"
| "after_calls w (c # cs) s = after_calls w cs (call_state w c s)"

text \<open>
  \<open>frame s s'\<close>: every object of \<open>s\<close> is an object of \<open>s'\<close> with the same content
  (objects are only added).
\<close>

definition frame :: "state \<Rightarrow> state \<Rightarrow> bool" where
  "frame s s' \<longleftrightarrow> next_ref s \<le> next_ref s' \<and> (\<forall>a < next_ref s. heap s' a = heap s a)"

section \<open>Example processes\<close>

text \<open>
  Concrete file systems, parsers and environments on which the statements below are
  evaluated. \<open>world_scenario\<close> follows the example of the module's header comment: a user
  file sets \<^verbatim>\<open>balenaUrl\<close>, a project file sets \<^verbatim>\<open>dataDirectory\<close>, and the
  environment sets \<^verbatim>\<open>dataDirectory\<close> again. The content of a file stands for its
  text; the parser maps it to the object the text denotes. No statement below depends on
  the value chosen for \<open>evaluate_undefined\<close>.
\<close>

definition example_paths :: config_paths where
  "example_paths =
     \<lparr>userLegacy = ''~/.resinrc.yml'', user = ''~/.balenarc.yml'',
      projectLegacy = ''resinrc.yml'', project = ''balenarc.yml''\<rparr>"

definition example_world :: "(string \<Rightarrow> fs_result) \<Rightarrow> (string \<Rightarrow> string + obj) \<Rightarrow> obj \<Rightarrow> world" where
  "example_world files parser env =
     \<lparr>readFileSync = files, yaml_parse = parser, paths = example_paths,
      environment_parse = env, evaluate_undefined = (\<lambda>name. Inr Undefined)\<rparr>"

definition example_defaults :: obj where
  "example_defaults =
     [(''dataDirectory'', Str ''/opt/default''), (''balenaUrl'', Str ''balena-cloud.com'')]"

definition world_scenario :: world where
  "world_scenario =
     example_world
       (\<lambda>file. if file = ''~/.balenarc.yml'' then FileContents ''U''
               else if file = ''balenarc.yml'' then FileContents ''P''
               else FsThrows ''ENOENT'')
       (\<lambda>text. if text = ''U'' then Inr [(''balenaUrl'', Str ''balena-staging.com'')]
               else if text = ''P'' then Inr [(''dataDirectory'', Str ''/opt/balena'')]
               else Inl ''unexpected end of the stream'')
       [(''dataDirectory'', Str ''/opt/cache/balena'')]"

definition world_bad_user_file :: world where
  "world_bad_user_file =
     example_world
       (\<lambda>file. if file = ''~/.balenarc.yml'' then FileContents ''{'' else FsThrows ''ENOENT'')
       (\<lambda>text. Inl ''unexpected end of the stream'')
       []"

definition world_legacy_keys :: world where
  "world_legacy_keys =
     example_world
       (\<lambda>file. if file = ''~/.resinrc.yml'' then FileContents ''L''
               else if file = ''~/.balenarc.yml'' then FileContents ''C''
               else FsThrows ''ENOENT'')
       (\<lambda>text. if text = ''L'' then Inr [(''resinDataDirectory'', Str ''/legacy'')]
               else Inr [(''resinDataDirectory'', Str ''/current'')])
       []"

definition world_nested :: world where
  "world_nested =
     example_world
       (\<lambda>file. if file = ''~/.balenarc.yml'' then FileContents ''U''
               else if file = ''balenarc.yml'' then FileContents ''P''
               else FsThrows ''ENOENT'')
       (\<lambda>text. if text = ''U'' then Inr [(''proxy'', Obj [(''host'', Str ''h'')])]
               else if text = ''P'' then Inr [(''proxy'', Obj [(''port'', Num 8080)])]
               else Inl ''unexpected end of the stream'')
       []"

definition world_alias :: world where
  "world_alias =
     example_world
       (\<lambda>file. if file = ''~/.balenarc.yml'' then FileContents ''U'' else FsThrows ''ENOENT'')
       (\<lambda>text. if text = ''U'' then Inr [(''cacheDirectory'', Str ''/tmp/cache'')]
               else Inl ''unexpected end of the stream'')
       [(''cacheDirectory'', Str ''dataDirectory'')]"

lemmas example_defs =
  example_paths_def example_world_def example_defaults_def world_scenario_def
  world_bad_user_file_def world_legacy_keys_def world_nested_def world_alias_def

lemmas model_defs =
  process_start_def defaults_ref_def new_object_def readConfigFile_counted_def
  readConfigFile_def mergeObjects_def getSettings_body_def getSettings_def get_def getAll_def
  evaluateSetting_def resolveAlias_def replaceResinKeys_def mapKeys_def keys_def

section \<open>Facts about string replacement and key mapping\<close>

lemma replace_absent: "\<not> sublist pat k \<Longrightarrow> replace pat rep k = k"
proof (induction k)
  case Nil
  then show ?case by (cases pat) auto
next
  case (Cons c cs)
  then show ?case by (simp add: sublist_Cons_right)
qed

lemma replace_present:
  "sublist pat k \<Longrightarrow>
     \<exists>pre post. k = pre @ pat @ post \<and> replace pat rep k = pre @ rep @ post \<and>
       (\<forall>pre' post'. k = pre' @ pat @ post' \<longrightarrow> length pre \<le> length pre')"
proof (induction k)
  case Nil
  then show ?case by simp
next
  case (Cons c cs)
  show ?case
  proof (cases "prefix pat (c # cs)")
    case True
    then obtain post where eq: "c # cs = pat @ post" by (auto simp: prefix_def)
    have "replace pat rep (c # cs) = rep @ drop (length pat) (c # cs)" using True by simp
    also have "drop (length pat) (c # cs) = post" by (simp add: eq)
    finally have "replace pat rep (c # cs) = [] @ rep @ post" by simp
    moreover have "c # cs = [] @ pat @ post" using eq by simp
    moreover have "\<forall>pre' post'. c # cs = pre' @ pat @ post' \<longrightarrow> length ([]::string) \<le> length pre'"
      by simp
    ultimately show ?thesis by blast
  next
    case False
    with Cons.prems have "sublist pat cs" by (simp add: sublist_Cons_right)
    from Cons.IH[OF this] obtain pre post where
      k: "cs = pre @ pat @ post" and r: "replace pat rep cs = pre @ rep @ post"
      and m: "\<forall>pre' post'. cs = pre' @ pat @ post' \<longrightarrow> length pre \<le> length pre'"
      by blast
    have "\<forall>pre' post'. c # cs = pre' @ pat @ post' \<longrightarrow> length (c # pre) \<le> length pre'"
    proof (intro allI impI)
      fix pre' post' assume e: "c # cs = pre' @ pat @ post'"
      show "length (c # pre) \<le> length pre'"
      proof (cases pre')
        case Nil
        with e have "prefix pat (c # cs)" by (simp add: prefix_def)
        with False show ?thesis by simp
      next
        case (Cons a pre'')
        with e have "cs = pre'' @ pat @ post'" by simp
        with m have "length pre \<le> length pre''" by blast
        with Cons show ?thesis by simp
      qed
    qed
    moreover have "c # cs = (c # pre) @ pat @ post" using k by simp
    moreover have "replace pat rep (c # cs) = (c # pre) @ rep @ post" using False r by simp
    ultimately show ?thesis by blast
  qed
qed

lemma map_of_rev_last:
  "map_of (rev xs) n =
     (case filter (\<lambda>e. fst e = n) xs of [] \<Rightarrow> None | y # ys \<Rightarrow> Some (snd (last (y # ys))))"
proof (induction xs rule: rev_induct)
  case Nil
  then show ?case by simp
next
  case (snoc x xs)
  then show ?case by (cases x) (auto split: list.splits)
qed

lemma foldl_update_map_of:
  "map_of (foldl (\<lambda>result (key, v). AList.update (f v key) v result) acc ob) =
     map_of acc ++ map_of (rev (map (\<lambda>(key, v). (f v key, v)) ob))"
proof (induction ob arbitrary: acc)
  case Nil
  then show ?case by simp
next
  case (Cons e ob)
  obtain k v where e: "e = (k, v)" by (cases e)
  show ?case
    by (simp add: e Cons.IH update_conv map_add_upd_left) (simp add: map_add_def fun_eq_iff split: option.splits)
qed


lemma foldl_update_keys:
  "fst ` set (foldl (\<lambda>result (key, v). AList.update (f v key) v result) acc ob) =
     fst ` set acc \<union> (\<lambda>(key, v). f v key) ` set ob"
proof (induction ob arbitrary: acc)
  case Nil
  then show ?case by simp
next
  case (Cons e ob)
  obtain k v where e: "e = (k, v)" by (cases e)
  have "fst ` set (AList.update (f v k) v acc) = insert (f v k) (fst ` set acc)"
    using dom_update[of "f v k" v acc] by (simp add: dom_map_of_conv_image_fst)
  then show ?case by (simp add: e Cons.IH)
qed

lemma mapKeys_map_of:
  "map_of (mapKeys f ob) n =
     (case filter (\<lambda>(key, v). f v key = n) ob of [] \<Rightarrow> None
      | y # ys \<Rightarrow> Some (snd (last (y # ys))))"
proof -
  have "filter (\<lambda>e. fst e = n) (map (\<lambda>(key, v). (f v key, v)) ob) =
        map (\<lambda>(key, v). (f v key, v)) (filter (\<lambda>(key, v). f v key = n) ob)"
    by (induction ob) auto
  then show ?thesis
    by (simp add: mapKeys_def foldl_update_map_of map_of_rev_last last_map split: list.splits prod.splits)
qed


lemma mapKeys_keys: "keys (mapKeys f ob) = (\<lambda>(key, v). f v key) ` set ob"
  by (simp add: mapKeys_def keys_def foldl_update_keys)

lemma filter_unique_key:
  "distinct (map fst ob) \<Longrightarrow> (k, v) \<in> set ob \<Longrightarrow>
     \<forall>k' \<in> fst ` set ob. k' \<noteq> k \<longrightarrow> g k' \<noteq> g k \<Longrightarrow>
     filter (\<lambda>(key, v). g key = g k) ob = [(k, v)]"
proof (induction ob)
  case Nil
  then show ?case by simp
next
  case (Cons e ob)
  show ?case
  proof (cases "e = (k, v)")
    case True
    with Cons.prems have "\<forall>e' \<in> set ob. g (fst e') \<noteq> g k" by force
    then have "filter (\<lambda>(key, v). g key = g k) ob = []" by (auto simp: filter_empty_conv)
    with True show ?thesis by simp
  next
    case False
    with Cons.prems have "fst e \<noteq> k" by (cases e) force
    with Cons.prems have "g (fst e) \<noteq> g k" by simp
    moreover have "filter (\<lambda>(key, v). g key = g k) ob = [(k, v)]"
      using Cons.prems False by (intro Cons.IH) auto
    ultimately show ?thesis by (cases e) simp
  qed
qed


lemma replace_cases:
  "(if sublist pat k
    then \<exists>pre post. k = pre @ pat @ post \<and> replace pat rep k = pre @ rep @ post \<and>
           (\<forall>pre' post'. k = pre' @ pat @ post' \<longrightarrow> length pre \<le> length pre')
    else replace pat rep k = k)"
proof (cases "sublist pat k")
  case True
  from replace_present[OF this, of rep] show ?thesis using True by (simp only: if_True)
next
  case False
  from replace_absent[OF this, of rep] show ?thesis using False by (simp only: if_False)
qed

section \<open>Facts about the memoized computation\<close>

lemma getSettings_body_success:
  assumes "readConfigFile w (userLegacy (paths w)) = Inr ul"
    and "readConfigFile w (user (paths w)) = Inr u"
    and "readConfigFile w (projectLegacy (paths w)) = Inr pl"
    and "readConfigFile w (project (paths w)) = Inr p"
  shows "getSettings_body w s =
     (Inr (next_ref s),
      s\<lparr>heap := (heap s)(next_ref s :=
              foldl merge_entries []
                [((heap s)(next_ref s := [])) defaults_ref, replaceResinKeys ul, u,
                 replaceResinKeys pl, p, environment_parse w]),
        next_ref := Suc (next_ref s),
        reads := reads s @ [userLegacy (paths w), user (paths w), projectLegacy (paths w),
                            project (paths w)]\<rparr>)"
  using assms
  by (simp add: getSettings_body_def new_object_def readConfigFile_counted_def mergeObjects_def)

lemma getSettings_body_effect:
  assumes "getSettings_body w s = (r, s')"
  shows "once_n s' = once_n s \<and> once_result s' = once_result s \<and>
         next_ref s' = Suc (next_ref s) \<and>
         (\<forall>a. a \<noteq> next_ref s \<longrightarrow> heap s' a = heap s a) \<and>
         (reads s' = reads s @ [userLegacy (paths w)] \<or>
          reads s' = reads s @ [userLegacy (paths w), user (paths w)] \<or>
          reads s' = reads s @ [userLegacy (paths w), user (paths w), projectLegacy (paths w)] \<or>
          reads s' = reads s @ [userLegacy (paths w), user (paths w), projectLegacy (paths w),
                                project (paths w)])"
  using assms
  by (auto simp: getSettings_body_def new_object_def readConfigFile_counted_def mergeObjects_def
           split: sum.splits)

lemma getSettings_fired:
  "once_n s \<le> 1 \<Longrightarrow> getSettings w s = (Inr (once_result s), s\<lparr>once_n := once_n s - 1\<rparr>)"
  by (simp add: getSettings_def Let_def)

lemma getSettings_first:
  "once_n s = 2 \<Longrightarrow>
     getSettings w s =
       (case getSettings_body w (s\<lparr>once_n := 1\<rparr>) of
          (Inl e, s2) \<Rightarrow> (Inl e, s2)
        | (Inr r, s2) \<Rightarrow> (Inr (Some r), s2\<lparr>once_result := Some r\<rparr>))"
  by (simp add: getSettings_def Let_def)

lemma getSettings_first_fires:
  assumes "once_n s = 2" and "getSettings w s = (r, s')"
  shows "once_n s' = 1"
proof -
  obtain rb sb where b: "getSettings_body w (s\<lparr>once_n := 1\<rparr>) = (rb, sb)" by force
  from getSettings_body_effect[OF b] have "once_n sb = 1" by simp
  with assms b show ?thesis by (auto simp: getSettings_first split: sum.splits)
qed

lemma get_fired:
  "once_n s \<le> 1 \<Longrightarrow>
     get w name s =
       (evaluateSetting w (map_option (heap s) (once_result s)) name,
        s\<lparr>once_n := once_n s - 1\<rparr>)"
  by (simp add: get_def getSettings_fired)

lemma mapValues_get_fired:
  "once_n s \<le> 1 \<Longrightarrow> once_result s = Some r \<Longrightarrow> heap s r = cfg \<Longrightarrow>
     mapValues (\<lambda>setting name. get w name) ob result s =
       (Inr (foldl (\<lambda>result (key, v).
                AList.update key
                  (case map_of cfg key of None \<Rightarrow> Undefined | Some v \<Rightarrow> resolveAlias cfg v)
                  result)
              result ob),
        s\<lparr>once_n := once_n s - int (length ob)\<rparr>)"
proof (induction ob arbitrary: result s)
  case Nil
  then show ?case by simp
next
  case (Cons e ob)
  obtain k v where e: "e = (k, v)" by (cases e)
  have "once_n (s\<lparr>once_n := once_n s - 1\<rparr>) \<le> 1"
    and "once_result (s\<lparr>once_n := once_n s - 1\<rparr>) = Some r"
    and "heap (s\<lparr>once_n := once_n s - 1\<rparr>) r = cfg"
    using Cons.prems by simp_all
  from Cons.IH[OF this] show ?case
    using Cons.prems by (simp add: e get_fired evaluateSetting_def)
qed

lemma getAll_fired_none:
  "once_n s \<le> 1 \<Longrightarrow> once_result s = None \<Longrightarrow>
     getAll w s = (Inr [], s\<lparr>once_n := once_n s - 1\<rparr>)"
  by (simp add: getAll_def getSettings_fired)

lemma getAll_fired:
  "once_n s \<le> 1 \<Longrightarrow> once_result s = Some r \<Longrightarrow> heap s r = cfg \<Longrightarrow>
     getAll w s =
       (Inr (foldl (\<lambda>result (key, v).
                AList.update key
                  (case map_of cfg key of None \<Rightarrow> Undefined | Some v \<Rightarrow> resolveAlias cfg v)
                  result)
              [] cfg),
        s\<lparr>once_n := once_n s - 1 - int (length cfg)\<rparr>)"
  using mapValues_get_fired[of "s\<lparr>once_n := once_n s - 1\<rparr>" r cfg w cfg "[]"]
  by (simp add: getAll_def getSettings_fired)

lemma call_state_fired:
  "once_n s \<le> 1 \<Longrightarrow> \<exists>n \<le> 1. call_state w c s = s\<lparr>once_n := n\<rparr>"
proof (cases c)
  case (Get name)
  assume "once_n s \<le> 1"
  then have "call_state w c s = s\<lparr>once_n := once_n s - 1\<rparr> \<and> once_n s - 1 \<le> 1"
    by (simp add: Get get_fired)
  then show ?thesis by blast
next
  case GetAll
  assume le: "once_n s \<le> 1"
  show ?thesis
  proof (cases "once_result s")
    case None
    from getAll_fired_none[OF le None, of w]
    have "call_state w c s = s\<lparr>once_n := once_n s - 1\<rparr> \<and> once_n s - 1 \<le> 1"
      using le GetAll by simp
    then show ?thesis by blast
  next
    case (Some r)
    from getAll_fired[OF le Some refl, of w]
    have "call_state w c s = s\<lparr>once_n := once_n s - 1 - int (length (heap s r))\<rparr> \<and>
        once_n s - 1 - int (length (heap s r)) \<le> 1"
      using le GetAll by simp
    then show ?thesis by blast
  qed
qed

lemma after_calls_fired:
  "once_n s \<le> 1 \<Longrightarrow> \<exists>n \<le> 1. after_calls w cs s = s\<lparr>once_n := n\<rparr>"
proof (induction cs arbitrary: s)
  case Nil
  then have "after_calls w [] s = s\<lparr>once_n := once_n s\<rparr>" by simp
  with Nil show ?case by blast
next
  case (Cons c cs)
  from call_state_fired[OF Cons.prems, of w c] obtain n where
    n: "n \<le> 1" "call_state w c s = s\<lparr>once_n := n\<rparr>" by blast
  then have "once_n (call_state w c s) \<le> 1" by simp
  from Cons.IH[OF this] obtain m where
    m: "m \<le> 1" "after_calls w cs (call_state w c s) = (call_state w c s)\<lparr>once_n := m\<rparr>"
    by blast
  then have "after_calls w (c # cs) s = s\<lparr>once_n := m\<rparr>" using n by simp
  with m show ?case by blast
qed

lemma frame_refl: "frame s s"
  by (simp add: frame_def)

lemma frame_trans: "frame s s' \<Longrightarrow> frame s' s'' \<Longrightarrow> frame s s''"
  by (auto simp: frame_def)

lemma frame_getSettings_body: "frame s (snd (getSettings_body w s))"
proof -
  obtain r s' where b: "getSettings_body w s = (r, s')" by force
  from getSettings_body_effect[OF b] show ?thesis by (simp add: frame_def b)
qed

lemma frame_getSettings: "frame s (snd (getSettings w s))"
proof (cases "once_n s - 1 > 0")
  case True
  obtain r s' where b: "getSettings_body w (s\<lparr>once_n := once_n s - 1\<rparr>) = (r, s')" by force
  from frame_getSettings_body[of "s\<lparr>once_n := once_n s - 1\<rparr>" w] b
  have "frame s s'" by (simp add: frame_def)
  with True b show ?thesis
    by (cases r) (simp_all add: getSettings_def Let_def frame_def)
next
  case False
  then show ?thesis by (simp add: getSettings_def Let_def frame_def)
qed

lemma snd_get: "snd (get w name s) = snd (getSettings w s)"
  by (simp add: get_def split: prod.splits sum.splits)

lemma frame_get: "frame s (snd (get w name s))"
  by (simp add: snd_get frame_getSettings)

lemma frame_mapValues_get:
  "frame s (snd (mapValues (\<lambda>setting name. get w name) ob result s))"
proof (induction ob arbitrary: result s)
  case Nil
  then show ?case by (simp add: frame_refl)
next
  case (Cons e ob)
  obtain k v where e: "e = (k, v)" by (cases e)
  obtain r s' where g: "get w k s = (r, s')" by force
  have f: "frame s s'" using frame_get[of s w k] g by simp
  show ?case
  proof (cases r)
    case (Inl err)
    with f g e show ?thesis by simp
  next
    case (Inr v')
    from Cons.IH[of s' "AList.update k v' result"] f
    show ?thesis using g e Inr by (simp add: frame_trans)
  qed
qed

lemma frame_getAll: "frame s (snd (getAll w s))"
proof -
  obtain r s' where g: "getSettings w s = (r, s')" by force
  have f: "frame s s'" using frame_getSettings[of s w] g by simp
  show ?thesis
  proof (cases r)
    case (Inl err)
    with f g show ?thesis by (simp add: getAll_def)
  next
    case (Inr settings)
    from frame_mapValues_get[of s' w "case settings of None \<Rightarrow> [] | Some r \<Rightarrow> heap s' r" "[]"] f
    show ?thesis using g Inr by (simp add: getAll_def frame_trans)
  qed
qed

lemma frame_call_state: "frame s (call_state w c s)"
  by (cases c) (simp_all add: frame_get frame_getAll)

lemma frame_after_calls: "frame s (after_calls w cs s)"
proof (induction cs arbitrary: s)
  case Nil
  then show ?case by (simp add: frame_refl)
next
  case (Cons c cs)
  from frame_trans[OF frame_call_state[of s w c] Cons.IH[of "call_state w c s"]]
  show ?case by simp
qed

lemma getSettings_first_result:
  assumes "once_n s = 2" and "getSettings w s = (Inr x, s1)"
  shows "\<exists>r. x = Some r \<and> once_n s1 = 1 \<and> once_result s1 = Some r"
proof -
  obtain rb sb where b: "getSettings_body w (s\<lparr>once_n := 1\<rparr>) = (rb, sb)" by force
  from getSettings_body_effect[OF b] have "once_n sb = 1" by simp
  with assms b show ?thesis by (auto simp: getSettings_first split: sum.splits)
qed

lemma getSettings_first_reads:
  assumes "once_n s = 2"
  shows "\<exists>ps. ps \<noteq> [] \<and>
           prefix ps [userLegacy (paths w), user (paths w), projectLegacy (paths w),
                      project (paths w)] \<and>
           reads (snd (getSettings w s)) = reads s @ ps"
proof -
  obtain rb sb where b: "getSettings_body w (s\<lparr>once_n := 1\<rparr>) = (rb, sb)" by force
  have r: "reads (snd (getSettings w s)) = reads sb"
    using assms b by (cases rb) (simp_all add: getSettings_first)
  from getSettings_body_effect[OF b]
  consider "reads sb = reads s @ [userLegacy (paths w)]"
    | "reads sb = reads s @ [userLegacy (paths w), user (paths w)]"
    | "reads sb = reads s @ [userLegacy (paths w), user (paths w), projectLegacy (paths w)]"
    | "reads sb = reads s @ [userLegacy (paths w), user (paths w), projectLegacy (paths w),
                            project (paths w)]"
    by auto
  then show ?thesis
  proof cases
    case 1
    then have "[userLegacy (paths w)] \<noteq> [] \<and>
        prefix [userLegacy (paths w)]
          [userLegacy (paths w), user (paths w), projectLegacy (paths w), project (paths w)] \<and>
        reads (snd (getSettings w s)) = reads s @ [userLegacy (paths w)]"
      using r by simp
    then show ?thesis by blast
  next
    case 2
    then have "[userLegacy (paths w), user (paths w)] \<noteq> [] \<and>
        prefix [userLegacy (paths w), user (paths w)]
          [userLegacy (paths w), user (paths w), projectLegacy (paths w), project (paths w)] \<and>
        reads (snd (getSettings w s)) = reads s @ [userLegacy (paths w), user (paths w)]"
      using r by simp
    then show ?thesis by blast
  next
    case 3
    then have "[userLegacy (paths w), user (paths w), projectLegacy (paths w)] \<noteq> [] \<and>
        prefix [userLegacy (paths w), user (paths w), projectLegacy (paths w)]
          [userLegacy (paths w), user (paths w), projectLegacy (paths w), project (paths w)] \<and>
        reads (snd (getSettings w s)) =
          reads s @ [userLegacy (paths w), user (paths w), projectLegacy (paths w)]"
      using r by simp
    then show ?thesis by blast
  next
    case 4
    then have "[userLegacy (paths w), user (paths w), projectLegacy (paths w),
          project (paths w)] \<noteq> [] \<and>
        prefix [userLegacy (paths w), user (paths w), projectLegacy (paths w), project (paths w)]
          [userLegacy (paths w), user (paths w), projectLegacy (paths w), project (paths w)] \<and>
        reads (snd (getSettings w s)) =
          reads s @ [userLegacy (paths w), user (paths w), projectLegacy (paths w),
                     project (paths w)]"
      using r by simp
    then show ?thesis by blast
  qed
qed

lemma getAll_after_getSettings:
  assumes "getSettings w s = (Inr (Some r), s1)" and "once_n s1 \<le> 1"
    and "once_result s1 = Some r" and "heap s1 r = cfg"
  shows "getAll w s =
       (Inr (foldl (\<lambda>result (key, v).
                AList.update key
                  (case map_of cfg key of None \<Rightarrow> Undefined | Some v \<Rightarrow> resolveAlias cfg v)
                  result)
              [] cfg),
        s1\<lparr>once_n := once_n s1 - int (length cfg)\<rparr>)"
  using assms mapValues_get_fired[OF assms(2,3,4), of w cfg "[]"] by (simp add: getAll_def)

lemma getAll_failure:
  "getSettings w s = (Inl e, s1) \<Longrightarrow> getAll w s = (Inl e, s1)"
  by (simp add: getAll_def)

lemma get_failure:
  "getSettings w s = (Inl e, s1) \<Longrightarrow> get w name s = (Inl e, s1)"
  by (simp add: get_def)

lemma get_success:
  "getSettings w s = (Inr (Some r), s1) \<Longrightarrow>
     get w name s =
       (Inr (case map_of (heap s1 r) name of None \<Rightarrow> Undefined
             | Some v \<Rightarrow> resolveAlias (heap s1 r) v), s1)"
  by (simp add: get_def evaluateSetting_def)

lemma call_state_first:
  assumes "once_n s = 2"
  shows "\<exists>n \<le> 1. call_state w c s = (snd (getSettings w s))\<lparr>once_n := n\<rparr>"
proof -
  obtain x s1 where g: "getSettings w s = (x, s1)" by force
  have n1: "once_n s1 = 1" using getSettings_first_fires[OF assms g] .
  show ?thesis
  proof (cases c)
    case (Get name)
    then have "call_state w c s = s1\<lparr>once_n := 1\<rparr>" using g n1 by (simp add: snd_get)
    then show ?thesis using g by auto
  next
    case GetAll
    show ?thesis
    proof (cases x)
      case (Inl e)
      then have "call_state w c s = s1\<lparr>once_n := 1\<rparr>"
        using g n1 GetAll by (simp add: getAll_failure)
      then show ?thesis using g by auto
    next
      case (Inr settings)
      from getSettings_first_result[OF assms g[unfolded Inr]] obtain r where
        r: "settings = Some r" "once_result s1 = Some r" by blast
      have le: "once_n s1 \<le> 1" using n1 by simp
      from getAll_after_getSettings[OF g[unfolded Inr r(1)] le r(2) refl]
      have "call_state w c s = s1\<lparr>once_n := once_n s1 - int (length (heap s1 r))\<rparr>"
        using GetAll by simp
      moreover have "once_n s1 - int (length (heap s1 r)) \<le> 1" using n1 by simp
      ultimately show ?thesis using g by auto
    qed
  qed
qed

section \<open>Facts about the merge\<close>

lemma resolveAlias_plain:
  "\<forall>other. v = Str other \<longrightarrow> map_of ob other = None \<Longrightarrow> resolveAlias ob v = v"
  by (cases v) (simp_all add: resolveAlias_def)

lemma merge_entries_absent:
  "k \<notin> fst ` set s \<Longrightarrow> map_of (merge_entries t s) k = map_of t k"
proof (induction s arbitrary: t)
  case Nil
  then show ?case by simp
next
  case (Cons e s)
  obtain k' v' where e: "e = (k', v')" by (cases e)
  with Cons.prems have "k' \<noteq> k" "k \<notin> fst ` set s" by auto
  with Cons.IH show ?case by (simp add: e update_conv)
qed

lemma update_keys_set: "fst ` set (AList.update k v al) = insert k (fst ` set al)"
  using dom_update[of k v al] by (simp add: dom_map_of_conv_image_fst)

lemma merge_entries_keys: "fst ` set (merge_entries t s) = fst ` set t \<union> fst ` set s"
proof (induction s arbitrary: t)
  case Nil
  then show ?case by simp
next
  case (Cons e s)
  obtain k' v' where e: "e = (k', v')" by (cases e)
  show ?case by (simp add: e Cons.IH update_keys_set)
qed

lemma foldl_merge_absent:
  "\<forall>src \<in> set srcs. k \<notin> fst ` set src \<Longrightarrow>
     map_of (foldl merge_entries acc srcs) k = map_of acc k"
  by (induction srcs arbitrary: acc) (simp_all add: merge_entries_absent)

lemma foldl_merge_keys:
  "fst ` set (foldl merge_entries acc srcs) = fst ` set acc \<union> (\<Union>src \<in> set srcs. fst ` set src)"
  by (induction srcs arbitrary: acc) (auto simp: merge_entries_keys)

lemma getSettings_success:
  assumes "once_n s = 2" and "defaults_ref < next_ref s"
    and "readConfigFile w (userLegacy (paths w)) = Inr ul"
    and "readConfigFile w (user (paths w)) = Inr u"
    and "readConfigFile w (projectLegacy (paths w)) = Inr pl"
    and "readConfigFile w (project (paths w)) = Inr p"
  shows "getSettings w s =
     (Inr (Some (next_ref s)),
      s\<lparr>heap := (heap s)(next_ref s :=
              foldl merge_entries []
                [heap s defaults_ref, replaceResinKeys ul, u, replaceResinKeys pl, p,
                 environment_parse w]),
        next_ref := Suc (next_ref s),
        once_n := 1,
        once_result := Some (next_ref s),
        reads := reads s @ [userLegacy (paths w), user (paths w), projectLegacy (paths w),
                            project (paths w)]\<rparr>)"
proof -
  have "defaults_ref \<noteq> next_ref s" using assms(2) by simp
  then show ?thesis
    using assms(1) getSettings_body_success[OF assms(3-6), of "s\<lparr>once_n := 1\<rparr>"]
    by (simp add: getSettings_first)
qed

lemma merge_val_not_both_obj:
  "\<forall>t m. \<not> (old = Obj t \<and> v = Obj m) \<Longrightarrow> merge_val old v = v"
  by (cases old; cases v) simp_all

lemma merge_entries_lookup:
  "distinct (map fst s) \<Longrightarrow>
     map_of (merge_entries t s) k =
       (case map_of s k of None \<Rightarrow> map_of t k
        | Some v \<Rightarrow> Some (case map_of t k of None \<Rightarrow> v | Some old \<Rightarrow> merge_val old v))"
proof (induction s arbitrary: t)
  case Nil
  then show ?case by simp
next
  case (Cons e s)
  obtain k' v' where e: "e = (k', v')" by (cases e)
  show ?case
  proof (cases "k' = k")
    case True
    with Cons.prems e have "k \<notin> fst ` set s" by auto
    then have "map_of (merge_entries
        (AList.update k (case map_of t k of None \<Rightarrow> v' | Some old \<Rightarrow> merge_val old v') t) s) k =
        map_of (AList.update k (case map_of t k of None \<Rightarrow> v' | Some old \<Rightarrow> merge_val old v') t) k"
      by (intro merge_entries_absent)
    then show ?thesis using True e by (simp add: update_conv)
  next
    case False
    define t' where
      "t' = AList.update k' (case map_of t k' of None \<Rightarrow> v' | Some old \<Rightarrow> merge_val old v') t"
    have m: "map_of t' k = map_of t k" using False by (simp add: t'_def update_conv)
    from Cons.prems e have d: "distinct (map fst s)" by simp
    have "map_of (merge_entries t (e # s)) k = map_of (merge_entries t' s) k"
      by (simp add: e t'_def)
    also have "\<dots> = (case map_of s k of None \<Rightarrow> map_of t' k
        | Some v \<Rightarrow> Some (case map_of t' k of None \<Rightarrow> v | Some old \<Rightarrow> merge_val old v))"
      by (rule Cons.IH[OF d])
    also have "\<dots> = (case map_of s k of None \<Rightarrow> map_of t k
        | Some v \<Rightarrow> Some (case map_of t k of None \<Rightarrow> v | Some old \<Rightarrow> merge_val old v))"
      by (simp only: m)
    also have "\<dots> = (case map_of (e # s) k of None \<Rightarrow> map_of t k
        | Some v \<Rightarrow> Some (case map_of t k of None \<Rightarrow> v | Some old \<Rightarrow> merge_val old v))"
      using False by (simp add: e)
    finally show ?thesis .
  qed
qed

lemma foldl_merge_lookup:
  assumes "i < length srcs" and "distinct (map fst (srcs ! i))"
    and "map_of (srcs ! i) k = Some v"
    and "\<forall>j. i < j \<and> j < length srcs \<longrightarrow> k \<notin> fst ` set (srcs ! j)"
  shows "map_of (foldl merge_entries acc srcs) k =
           Some (case map_of (foldl merge_entries acc (take i srcs)) k of
                   None \<Rightarrow> v | Some old \<Rightarrow> merge_val old v)"
proof -
  have split: "srcs = take i srcs @ (srcs ! i) # drop (Suc i) srcs"
    using assms(1) by (rule id_take_nth_drop)
  have later: "\<forall>src \<in> set (drop (Suc i) srcs). k \<notin> fst ` set src"
  proof
    fix src assume "src \<in> set (drop (Suc i) srcs)"
    then obtain j where "j < length (drop (Suc i) srcs)" "src = drop (Suc i) srcs ! j"
      by (auto simp: in_set_conv_nth)
    then have "src = srcs ! (Suc i + j)" "Suc i + j < length srcs" by auto
    with assms(4) show "k \<notin> fst ` set src" by simp
  qed
  have "foldl merge_entries acc srcs =
        foldl merge_entries (merge_entries (foldl merge_entries acc (take i srcs)) (srcs ! i))
          (drop (Suc i) srcs)"
    by (subst split) (simp only: foldl_append foldl_Cons)
  then show ?thesis
    by (simp add: foldl_merge_absent[OF later] merge_entries_lookup[OF assms(2)] assms(3))
qed

lemma resolveAlias_target:
  "map_of ob other = Some target \<Longrightarrow> resolveAlias ob (Str other) = target"
  by (simp add: resolveAlias_def)


section \<open>The source reader: missing files and parse failures\<close>

text \<open>
  C6: for every file path, when the file does not exist (\<^verbatim>\<open>readFileSync\<close> throws an
  error whose code is \<^verbatim>\<open>ENOENT\<close>), the source reader returns the empty mapping and
  raises nothing.
\<close>

theorem readConfigFile_missing:
  "readFileSync w file = FsThrows ''ENOENT'' \<Longrightarrow> readConfigFile w file = Inr []"
  by (simp add: readConfigFile_def)

theorem readConfigFile_missing_witness:
  "readConfigFile world_scenario ''resinrc.yml'' = Inr []"
proof -
  have "readFileSync world_scenario ''resinrc.yml'' = FsThrows ''ENOENT''"
    by (simp add: example_defs)
  then show ?thesis by (rule readConfigFile_missing)
qed

text \<open>
  C7: for every file path whose file is read but whose content the parser rejects, the
  source reader returns no mapping: it throws an error whose message is
  \<^verbatim>\<open>Error parsing config file <path>: <parser message>\<close>, so the message contains the
  path and the parser's message.
\<close>

theorem readConfigFile_parse_error:
  assumes "readFileSync w file = FileContents fileContents"
    and "yaml_parse w fileContents = Inl message"
  shows "readConfigFile w file =
           Inl (Error (''Error parsing config file '' @ file @ '': '' @ message)) \<and>
         sublist file (''Error parsing config file '' @ file @ '': '' @ message) \<and>
         sublist message (''Error parsing config file '' @ file @ '': '' @ message)"
proof (intro conjI)
  show "readConfigFile w file =
          Inl (Error (''Error parsing config file '' @ file @ '': '' @ message))"
    using assms by (simp add: readConfigFile_def)
  show "sublist file (''Error parsing config file '' @ file @ '': '' @ message)"
    by (rule sublist_appendI)
  have "sublist message ((''Error parsing config file '' @ file @ '': '') @ message)"
    by (rule sublist_append_leftI)
  then show "sublist message (''Error parsing config file '' @ file @ '': '' @ message)"
    by (simp only: append_assoc)
qed

theorem readConfigFile_parse_error_witness:
  "readConfigFile world_bad_user_file ''~/.balenarc.yml'' =
     Inl (Error ''Error parsing config file ~/.balenarc.yml: unexpected end of the stream'')"
proof -
  have h1: "readFileSync world_bad_user_file ''~/.balenarc.yml'' = FileContents ''{''"
    by (simp add: example_defs)
  have h2: "yaml_parse world_bad_user_file ''{'' = Inl ''unexpected end of the stream''"
    by (simp add: example_defs)
  from readConfigFile_parse_error[OF h1 h2] show ?thesis by simp
qed

section \<open>The key normalizer\<close>

text \<open>
  The normalizer does not keep every value: of two keys that normalize to the same name,
  one entry is left. Here the value of \<^verbatim>\<open>resinUrl\<close> is lost.
\<close>

theorem replaceResinKeys_collision_counterexample:
  "distinct (map fst [(''resinUrl'', Str ''x''), (''balenaUrl'', Str ''y'')]) \<and>
   replaceResinKeys [(''resinUrl'', Str ''x''), (''balenaUrl'', Str ''y'')] =
     [(''balenaUrl'', Str ''y'')] \<and>
   map_of (replaceResinKeys [(''resinUrl'', Str ''x''), (''balenaUrl'', Str ''y'')])
     (replace ''resin'' ''balena'' ''resinUrl'') \<noteq> Some (Str ''x'')"
  by (simp add: replaceResinKeys_def mapKeys_def)

text \<open>
  C3 (amended): applied to a flat mapping, the key normalizer returns a mapping whose keys
  are the normalized keys of the input. For every entry whose normalized key is the
  normalized key of no other entry, the result holds the entry's value, unchanged, under
  the normalized key; the normalized key is the key with the first occurrence of
  \<^verbatim>\<open>resin\<close> replaced by \<^verbatim>\<open>balena\<close> and the rest unchanged, and a key without
  \<^verbatim>\<open>resin\<close> is its own normalized key.
\<close>

theorem replaceResinKeys_entry:
  assumes "distinct (map fst ob)" and "(k, v) \<in> set ob"
    and "\<forall>k' \<in> keys ob. k' \<noteq> k \<longrightarrow>
           replace ''resin'' ''balena'' k' \<noteq> replace ''resin'' ''balena'' k"
  shows "map_of (replaceResinKeys ob) (replace ''resin'' ''balena'' k) = Some v \<and>
         (if sublist ''resin'' k
          then \<exists>pre post. k = pre @ ''resin'' @ post \<and>
                 replace ''resin'' ''balena'' k = pre @ ''balena'' @ post \<and>
                 (\<forall>pre' post'. k = pre' @ ''resin'' @ post' \<longrightarrow> length pre \<le> length pre')
          else replace ''resin'' ''balena'' k = k) \<and>
         keys (replaceResinKeys ob) = replace ''resin'' ''balena'' ` keys ob"
proof (intro conjI)
  have "filter (\<lambda>(key, v). replace ''resin'' ''balena'' key = replace ''resin'' ''balena'' k) ob
          = [(k, v)]"
    using assms by (intro filter_unique_key) (simp_all add: keys_def)
  then show "map_of (replaceResinKeys ob) (replace ''resin'' ''balena'' k) = Some v"
    by (simp add: replaceResinKeys_def mapKeys_map_of)
  show "keys (replaceResinKeys ob) = replace ''resin'' ''balena'' ` keys ob"
  proof -
    have "(\<lambda>(key, v::jsval). replace ''resin'' ''balena'' key) ` set ob =
          replace ''resin'' ''balena'' ` fst ` set ob"
      by (simp add: image_image case_prod_unfold)
    then have "keys (mapKeys (\<lambda>v key. replace ''resin'' ''balena'' key) ob) =
          replace ''resin'' ''balena'' ` fst ` set ob"
      by (simp only: mapKeys_keys)
    then show ?thesis by (simp only: replaceResinKeys_def keys_def)
  qed
  show "if sublist ''resin'' k
          then \<exists>pre post. k = pre @ ''resin'' @ post \<and>
                 replace ''resin'' ''balena'' k = pre @ ''balena'' @ post \<and>
                 (\<forall>pre' post'. k = pre' @ ''resin'' @ post' \<longrightarrow> length pre \<le> length pre')
          else replace ''resin'' ''balena'' k = k"
    by (rule replace_cases)
qed

theorem replaceResinKeys_entry_witness:
  "map_of (replaceResinKeys [(''resinUrl'', Str ''x''), (''dataDirectory'', Str ''y'')])
     ''balenaUrl'' = Some (Str ''x'') \<and>
   keys (replaceResinKeys [(''resinUrl'', Str ''x''), (''dataDirectory'', Str ''y'')]) =
     {''balenaUrl'', ''dataDirectory''}"
proof -
  let ?ob = "[(''resinUrl'', Str ''x''), (''dataDirectory'', Str ''y'')]"
  have h1: "distinct (map fst ?ob)" by simp
  have h2: "(''resinUrl'', Str ''x'') \<in> set ?ob" by simp
  have h3: "\<forall>k' \<in> keys ?ob. k' \<noteq> ''resinUrl'' \<longrightarrow>
              replace ''resin'' ''balena'' k' \<noteq> replace ''resin'' ''balena'' ''resinUrl''"
    by (simp add: keys_def)
  note r = replaceResinKeys_entry[OF h1 h2 h3]
  from r have "map_of (replaceResinKeys ?ob) (replace ''resin'' ''balena'' ''resinUrl'') =
      Some (Str ''x'')"
    by (rule conjunct1)
  moreover from r have "keys (replaceResinKeys ?ob) = replace ''resin'' ''balena'' ` keys ?ob"
    by (elim conjE)
  ultimately show ?thesis by (simp add: keys_def insert_commute)
qed



section \<open>The settings merger: precedence and normalization\<close>

text \<open>
  The value of the highest-precedence source is not always what \<^verbatim>\<open>get\<close> returns. In
  \<open>world_nested\<close> the user file and the project file both give \<^verbatim>\<open>proxy\<close> a nested
  mapping: the two are merged, and \<^verbatim>\<open>get\<close> returns neither file's value. In
  \<open>world_alias\<close> the user file and the environment both define \<^verbatim>\<open>cacheDirectory\<close>;
  the environment's value is the string \<^verbatim>\<open>dataDirectory\<close>, the name of another
  setting, and \<^verbatim>\<open>get\<close> returns that setting's value.
\<close>

theorem precedence_counterexample:
  "readConfigFile world_nested (project (paths world_nested)) =
     Inr [(''proxy'', Obj [(''port'', Num 8080)])] \<and>
   environment_parse world_nested = [] \<and>
   fst (get world_nested ''proxy'' (process_start example_defaults)) =
     Inr (Obj [(''host'', Str ''h''), (''port'', Num 8080)]) \<and>
   fst (get world_nested ''proxy'' (process_start example_defaults)) \<noteq>
     Inr (Obj [(''port'', Num 8080)]) \<and>
   map_of (environment_parse world_alias) ''cacheDirectory'' = Some (Str ''dataDirectory'') \<and>
   fst (get world_alias ''cacheDirectory'' (process_start example_defaults)) =
     Inr (Str ''/opt/default'') \<and>
   fst (get world_alias ''cacheDirectory'' (process_start example_defaults)) \<noteq>
     Inr (Str ''dataDirectory'')"
  by (simp add: example_defs model_defs)

text \<open>
  C1 (amended): in a fresh process in which the four files are read without error, the
  resolved configuration is the merge, into an empty object, of the six sources in the
  order defaults, normalized legacy user file, current user file, normalized legacy
  project file, current project file, environment mapping. For every key and every
  subset of the sources defining it, let \<open>v\<close> be the value of the highest-precedence
  defining source (index \<open>i\<close>) and \<open>lower\<close> the value that the sources below it resolve
  to. The resolved configuration holds \<open>v\<close> under the key, unless \<open>lower\<close> and \<open>v\<close> are
  both nested mappings: then it holds their merge, in which every inner key has the value
  of \<open>v\<close> where \<open>v\<close> defines it (merged with the lower one in the same way) and the lower
  value otherwise. \<^verbatim>\<open>get\<close> returns the held value, unless that is a string naming a
  setting: then it returns that setting's value.
\<close>

theorem resolved_precedence:
  assumes "once_n s = 2" and "defaults_ref < next_ref s"
    and "readConfigFile w (userLegacy (paths w)) = Inr ul"
    and "readConfigFile w (user (paths w)) = Inr u"
    and "readConfigFile w (projectLegacy (paths w)) = Inr pl"
    and "readConfigFile w (project (paths w)) = Inr p"
    and "srcs = [heap s defaults_ref, replaceResinKeys ul, u, replaceResinKeys pl, p,
                 environment_parse w]"
    and "i < length srcs" and "distinct (map fst (srcs ! i))"
    and "map_of (srcs ! i) name = Some v"
    and "\<forall>j. i < j \<and> j < length srcs \<longrightarrow> name \<notin> keys (srcs ! j)"
    and "lower = map_of (foldl merge_entries [] (take i srcs)) name"
    and "held = (case lower of None \<Rightarrow> v | Some old \<Rightarrow> merge_val old v)"
  shows "\<exists>r s'. getSettings w s = (Inr (Some r), s') \<and>
           heap s' r = foldl merge_entries [] srcs \<and>
           map_of (heap s' r) name = Some held \<and>
           ((\<forall>t m. \<not> (lower = Some (Obj t) \<and> v = Obj m)) \<longrightarrow> held = v) \<and>
           (\<forall>t m. lower = Some (Obj t) \<and> v = Obj m \<longrightarrow>
              held = Obj (merge_entries t m) \<and>
              (distinct (map fst m) \<longrightarrow>
                 (\<forall>k. map_of (merge_entries t m) k =
                    (case map_of m k of None \<Rightarrow> map_of t k
                     | Some v' \<Rightarrow>
                         Some (case map_of t k of None \<Rightarrow> v'
                               | Some old \<Rightarrow> merge_val old v'))))) \<and>
           get w name s = (Inr (resolveAlias (heap s' r) held), s') \<and>
           ((\<forall>other. held = Str other \<longrightarrow> other \<notin> keys (heap s' r)) \<longrightarrow>
              get w name s = (Inr held, s')) \<and>
           (\<forall>other target. held = Str other \<and> map_of (heap s' r) other = Some target \<longrightarrow>
              get w name s = (Inr target, s'))"
proof -
  let ?s' = "s\<lparr>heap := (heap s)(next_ref s := foldl merge_entries [] srcs),
        next_ref := Suc (next_ref s),
        once_n := 1,
        once_result := Some (next_ref s),
        reads := reads s @ [userLegacy (paths w), user (paths w), projectLegacy (paths w),
                            project (paths w)]\<rparr>"
  define cfg where "cfg = foldl merge_entries [] srcs"
  have g: "getSettings w s = (Inr (Some (next_ref s)), ?s')"
    using getSettings_success[OF assms(1-6)] assms(7) by simp
  have h: "heap ?s' (next_ref s) = cfg" by (simp add: cfg_def)
  have m: "map_of cfg name = Some held"
    unfolding cfg_def assms(13) assms(12)
    using assms(11) by (intro foldl_merge_lookup[OF assms(8-10)]) (simp add: keys_def)
  have c1: "(\<forall>t m. \<not> (lower = Some (Obj t) \<and> v = Obj m)) \<longrightarrow> held = v"
  proof
    assume a: "\<forall>t m. \<not> (lower = Some (Obj t) \<and> v = Obj m)"
    show "held = v"
    proof (cases lower)
      case None
      then show ?thesis by (simp add: assms(13))
    next
      case (Some old)
      with a have "\<forall>t m. \<not> (old = Obj t \<and> v = Obj m)" by simp
      then have "merge_val old v = v" by (rule merge_val_not_both_obj)
      with Some show ?thesis by (simp add: assms(13))
    qed
  qed
  have c2: "\<forall>t m. lower = Some (Obj t) \<and> v = Obj m \<longrightarrow>
              held = Obj (merge_entries t m) \<and>
              (distinct (map fst m) \<longrightarrow>
                 (\<forall>k. map_of (merge_entries t m) k =
                    (case map_of m k of None \<Rightarrow> map_of t k
                     | Some v' \<Rightarrow>
                         Some (case map_of t k of None \<Rightarrow> v'
                               | Some old \<Rightarrow> merge_val old v'))))"
    by (simp add: assms(13) merge_entries_lookup)
  have ge: "get w name s = (Inr (resolveAlias cfg held), ?s')"
    using get_success[OF g, of name] m by (simp add: cfg_def)
  have c3: "(\<forall>other. held = Str other \<longrightarrow> other \<notin> keys cfg) \<longrightarrow>
          get w name s = (Inr held, ?s')"
  proof
    assume "\<forall>other. held = Str other \<longrightarrow> other \<notin> keys cfg"
    then have "\<forall>other. held = Str other \<longrightarrow> map_of cfg other = None"
      by (simp add: keys_def map_of_eq_None_iff)
    then have "resolveAlias cfg held = held" by (rule resolveAlias_plain)
    with ge show "get w name s = (Inr held, ?s')" by simp
  qed
  have c4: "\<forall>other target. held = Str other \<and> map_of cfg other = Some target \<longrightarrow>
              get w name s = (Inr target, ?s')"
    using ge by (auto simp: resolveAlias_target)
  have "getSettings w s = (Inr (Some (next_ref s)), ?s') \<and>
           heap ?s' (next_ref s) = foldl merge_entries [] srcs \<and>
           map_of (heap ?s' (next_ref s)) name = Some held \<and>
           ((\<forall>t m. \<not> (lower = Some (Obj t) \<and> v = Obj m)) \<longrightarrow> held = v) \<and>
           (\<forall>t m. lower = Some (Obj t) \<and> v = Obj m \<longrightarrow>
              held = Obj (merge_entries t m) \<and>
              (distinct (map fst m) \<longrightarrow>
                 (\<forall>k. map_of (merge_entries t m) k =
                    (case map_of m k of None \<Rightarrow> map_of t k
                     | Some v' \<Rightarrow>
                         Some (case map_of t k of None \<Rightarrow> v'
                               | Some old \<Rightarrow> merge_val old v'))))) \<and>
           get w name s = (Inr (resolveAlias (heap ?s' (next_ref s)) held), ?s') \<and>
           ((\<forall>other. held = Str other \<longrightarrow> other \<notin> keys (heap ?s' (next_ref s))) \<longrightarrow>
              get w name s = (Inr held, ?s')) \<and>
           (\<forall>other target. held = Str other \<and> map_of (heap ?s' (next_ref s)) other = Some target \<longrightarrow>
              get w name s = (Inr target, ?s'))"
    unfolding h using g m c1 c2 ge c3 c4 unfolding cfg_def
    by (intro conjI) (assumption | rule refl)+
  then show ?thesis by (intro exI[of _ "next_ref s"] exI[of _ ?s'])
qed

theorem resolved_precedence_witness:
  "fst (get world_scenario ''dataDirectory'' (process_start example_defaults)) =
     Inr (Str ''/opt/cache/balena'') \<and>
   fst (get world_nested ''proxy'' (process_start example_defaults)) =
     Inr (Obj [(''host'', Str ''h''), (''port'', Num 8080)])"
proof -
  let ?s = "process_start example_defaults"
  have h1: "once_n ?s = 2" by (simp add: process_start_def)
  have h2: "defaults_ref < next_ref ?s" by (simp add: process_start_def)
  have a: "fst (get world_scenario ''dataDirectory'' ?s) = Inr (Str ''/opt/cache/balena'')"
  proof -
    let ?srcs = "[heap ?s defaults_ref, replaceResinKeys [],
                  [(''balenaUrl'', Str ''balena-staging.com'')], replaceResinKeys [],
                  [(''dataDirectory'', Str ''/opt/balena'')], environment_parse world_scenario]"
    let ?lower = "map_of (foldl merge_entries [] (take 5 ?srcs)) ''dataDirectory''"
    let ?held = "case ?lower of None \<Rightarrow> Str ''/opt/cache/balena''
                 | Some old \<Rightarrow> merge_val old (Str ''/opt/cache/balena'')"
    have h3: "readConfigFile world_scenario (userLegacy (paths world_scenario)) = Inr []"
      by (simp add: example_defs readConfigFile_def)
    have h4: "readConfigFile world_scenario (user (paths world_scenario)) =
        Inr [(''balenaUrl'', Str ''balena-staging.com'')]"
      by (simp add: example_defs readConfigFile_def)
    have h5: "readConfigFile world_scenario (projectLegacy (paths world_scenario)) = Inr []"
      by (simp add: example_defs readConfigFile_def)
    have h6: "readConfigFile world_scenario (project (paths world_scenario)) =
        Inr [(''dataDirectory'', Str ''/opt/balena'')]"
      by (simp add: example_defs readConfigFile_def)
    have h7: "?srcs = ?srcs" by (rule refl)
    have len: "length ?srcs = 6" by simp
    have h8: "5 < length ?srcs" by simp
    have h9: "distinct (map fst (?srcs ! 5))" by (simp add: example_defs)
    have h10: "map_of (?srcs ! 5) ''dataDirectory'' = Some (Str ''/opt/cache/balena'')"
      by (simp add: example_defs)
    have h11: "\<forall>j. 5 < j \<and> j < length ?srcs \<longrightarrow> ''dataDirectory'' \<notin> keys (?srcs ! j)"
    proof (intro allI impI)
      fix j assume "5 < j \<and> j < length ?srcs"
      then have False unfolding len by arith
      then show "''dataDirectory'' \<notin> keys (?srcs ! j)" by (rule FalseE)
    qed
    have h12: "?lower = ?lower" by (rule refl)
    have h13: "?held = ?held" by (rule refl)
    from resolved_precedence[OF h1 h2 h3 h4 h5 h6 h7 h8 h9 h10 h11 h12 h13]
    obtain r s' where
      h: "heap s' r = foldl merge_entries [] ?srcs" and
      g: "get world_scenario ''dataDirectory'' ?s = (Inr (resolveAlias (heap s' r) ?held), s')"
      by blast
    have "fst (get world_scenario ''dataDirectory'' ?s) =
        Inr (resolveAlias (foldl merge_entries [] ?srcs) ?held)"
      using g h by simp
    then show ?thesis by (simp add: example_defs model_defs)
  qed
  have b: "fst (get world_nested ''proxy'' ?s) =
      Inr (Obj [(''host'', Str ''h''), (''port'', Num 8080)])"
  proof -
    let ?srcs = "[heap ?s defaults_ref, replaceResinKeys [],
                  [(''proxy'', Obj [(''host'', Str ''h'')])], replaceResinKeys [],
                  [(''proxy'', Obj [(''port'', Num 8080)])], environment_parse world_nested]"
    let ?lower = "map_of (foldl merge_entries [] (take 4 ?srcs)) ''proxy''"
    let ?held = "case ?lower of None \<Rightarrow> Obj [(''port'', Num 8080)]
                 | Some old \<Rightarrow> merge_val old (Obj [(''port'', Num 8080)])"
    have h3: "readConfigFile world_nested (userLegacy (paths world_nested)) = Inr []"
      by (simp add: example_defs readConfigFile_def)
    have h4: "readConfigFile world_nested (user (paths world_nested)) =
        Inr [(''proxy'', Obj [(''host'', Str ''h'')])]"
      by (simp add: example_defs readConfigFile_def)
    have h5: "readConfigFile world_nested (projectLegacy (paths world_nested)) = Inr []"
      by (simp add: example_defs readConfigFile_def)
    have h6: "readConfigFile world_nested (project (paths world_nested)) =
        Inr [(''proxy'', Obj [(''port'', Num 8080)])]"
      by (simp add: example_defs readConfigFile_def)
    have h7: "?srcs = ?srcs" by (rule refl)
    have len: "length ?srcs = 6" by simp
    have h8: "4 < length ?srcs" by simp
    have h9: "distinct (map fst (?srcs ! 4))" by simp
    have h10: "map_of (?srcs ! 4) ''proxy'' = Some (Obj [(''port'', Num 8080)])" by simp
    have h11: "\<forall>j. 4 < j \<and> j < length ?srcs \<longrightarrow> ''proxy'' \<notin> keys (?srcs ! j)"
    proof (intro allI impI)
      fix j assume "4 < j \<and> j < length ?srcs"
      then have "j = 5" unfolding len by arith
      then show "''proxy'' \<notin> keys (?srcs ! j)" by (simp add: example_defs keys_def)
    qed
    have h12: "?lower = ?lower" by (rule refl)
    have h13: "?held = ?held" by (rule refl)
    from resolved_precedence[OF h1 h2 h3 h4 h5 h6 h7 h8 h9 h10 h11 h12 h13]
    obtain r s' where
      h: "heap s' r = foldl merge_entries [] ?srcs" and
      g: "get world_nested ''proxy'' ?s = (Inr (resolveAlias (heap s' r) ?held), s')"
      by blast
    have "fst (get world_nested ''proxy'' ?s) =
        Inr (resolveAlias (foldl merge_entries [] ?srcs) ?held)"
      using g h by simp
    then show ?thesis by (simp add: example_defs model_defs)
  qed
  from a b show ?thesis by simp
qed

text \<open>
  C8: key normalization is applied to the legacy user file and the legacy project file
  and to nothing else: the resolved configuration is the merge of the defaults, the
  normalized legacy user mapping, the current user mapping as read, the normalized legacy
  project mapping, the current project mapping as read and the environment mapping as
  parsed, so its keys are the keys of the unnormalized sources together with the
  normalized keys of the two legacy sources. The example after the theorem is the one of
  the claim: \<^verbatim>\<open>resinDataDirectory\<close> in a legacy file arrives as
  \<^verbatim>\<open>balenaDataDirectory\<close>, in a current file it stays \<^verbatim>\<open>resinDataDirectory\<close>.
\<close>

theorem normalization_only_on_legacy_sources:
  assumes "once_n s = 2" and "defaults_ref < next_ref s"
    and "readConfigFile w (userLegacy (paths w)) = Inr ul"
    and "readConfigFile w (user (paths w)) = Inr u"
    and "readConfigFile w (projectLegacy (paths w)) = Inr pl"
    and "readConfigFile w (project (paths w)) = Inr p"
  shows "\<exists>r s'. getSettings w s = (Inr (Some r), s') \<and>
           heap s' r =
             foldl merge_entries []
               [heap s defaults_ref, replaceResinKeys ul, u, replaceResinKeys pl, p,
                environment_parse w] \<and>
           keys (heap s' r) =
             keys (heap s defaults_ref) \<union> replace ''resin'' ''balena'' ` keys ul \<union> keys u \<union>
             replace ''resin'' ''balena'' ` keys pl \<union> keys p \<union> keys (environment_parse w)"
proof -
  have n: "\<And>ob. fst ` set (replaceResinKeys ob) = replace ''resin'' ''balena'' ` fst ` set ob"
  proof -
    fix ob
    have "(\<lambda>(key, v::jsval). replace ''resin'' ''balena'' key) ` set ob =
          replace ''resin'' ''balena'' ` fst ` set ob"
      by (simp add: image_image case_prod_unfold)
    then show "fst ` set (replaceResinKeys ob) = replace ''resin'' ''balena'' ` fst ` set ob"
      using mapKeys_keys[of "\<lambda>v key. replace ''resin'' ''balena'' key" ob]
      by (simp add: replaceResinKeys_def keys_def)
  qed
  have "keys (foldl merge_entries []
               [heap s defaults_ref, replaceResinKeys ul, u, replaceResinKeys pl, p,
                environment_parse w]) =
        keys (heap s defaults_ref) \<union> replace ''resin'' ''balena'' ` keys ul \<union> keys u \<union>
             replace ''resin'' ''balena'' ` keys pl \<union> keys p \<union> keys (environment_parse w)"
    unfolding keys_def foldl_merge_keys by (simp add: n Un_assoc)
  with getSettings_success[OF assms] show ?thesis by simp
qed

theorem normalization_only_on_legacy_sources_witness:
  "fst (get world_legacy_keys ''balenaDataDirectory'' (process_start example_defaults)) =
     Inr (Str ''/legacy'') \<and>
   fst (get world_legacy_keys ''resinDataDirectory'' (process_start example_defaults)) =
     Inr (Str ''/current'')"
proof -
  let ?s = "process_start example_defaults"
  have h1: "once_n ?s = 2" by (simp add: process_start_def)
  have h2: "defaults_ref < next_ref ?s" by (simp add: process_start_def)
  have h3: "readConfigFile world_legacy_keys (userLegacy (paths world_legacy_keys)) =
      Inr [(''resinDataDirectory'', Str ''/legacy'')]"
    by (simp add: example_defs readConfigFile_def)
  have h4: "readConfigFile world_legacy_keys (user (paths world_legacy_keys)) =
      Inr [(''resinDataDirectory'', Str ''/current'')]"
    by (simp add: example_defs readConfigFile_def)
  have h5: "readConfigFile world_legacy_keys (projectLegacy (paths world_legacy_keys)) = Inr []"
    by (simp add: example_defs readConfigFile_def)
  have h6: "readConfigFile world_legacy_keys (project (paths world_legacy_keys)) = Inr []"
    by (simp add: example_defs readConfigFile_def)
  from normalization_only_on_legacy_sources[OF h1 h2 h3 h4 h5 h6]
  obtain r s' where
    g: "getSettings world_legacy_keys ?s = (Inr (Some r), s')" and
    h: "heap s' r =
          foldl merge_entries []
            [heap ?s defaults_ref, replaceResinKeys [(''resinDataDirectory'', Str ''/legacy'')],
             [(''resinDataDirectory'', Str ''/current'')], replaceResinKeys [], [],
             environment_parse world_legacy_keys]"
    by blast
  have "\<And>name. fst (get world_legacy_keys name ?s) =
      Inr (case map_of (heap s' r) name of None \<Rightarrow> Undefined
           | Some v \<Rightarrow> resolveAlias (heap s' r) v)"
    using get_success[OF g] by simp
  then show ?thesis
    by (simp add: h example_defs process_start_def defaults_ref_def
        resolveAlias_def replaceResinKeys_def mapKeys_def)
qed

section \<open>The memoized computation\<close>

text \<open>
  C2: in a fresh process, the first call to \<^verbatim>\<open>get\<close> or \<^verbatim>\<open>getAll\<close> runs the
  read-and-merge computation: it reads the four files in order, each at most once
  (stopping at the first failure). Every later sequence of calls changes nothing but the
  counter of \<^verbatim>\<open>_.once\<close>: no file is read again and the cached settings object is the
  same. So a \<^verbatim>\<open>get\<close> that returned a value returns it again, and a \<^verbatim>\<open>getAll\<close> that
  returned a mapping returns the same mapping again, whatever is called in between.
\<close>

theorem settings_computed_once:
  assumes "once_n s = 2"
  shows "(\<exists>ps. ps \<noteq> [] \<and>
            prefix ps [userLegacy (paths w), user (paths w), projectLegacy (paths w),
                       project (paths w)] \<and>
            reads (call_state w c s) = reads s @ ps) \<and>
         (\<exists>n. after_calls w cs (call_state w c s) = (call_state w c s)\<lparr>once_n := n\<rparr>) \<and>
         (\<forall>v. fst (get w name s) = Inr v \<longrightarrow>
            fst (get w name (after_calls w cs (snd (get w name s)))) = Inr v) \<and>
         (\<forall>m. fst (getAll w s) = Inr m \<longrightarrow>
            fst (getAll w (after_calls w cs (snd (getAll w s)))) = Inr m)"
proof (intro conjI allI impI)
  from call_state_first[OF assms, of w c] obtain n where
    n: "n \<le> 1" "call_state w c s = (snd (getSettings w s))\<lparr>once_n := n\<rparr>" by blast
  then have "reads (call_state w c s) = reads (snd (getSettings w s))" by simp
  with getSettings_first_reads[OF assms, of w]
  show "\<exists>ps. ps \<noteq> [] \<and>
            prefix ps [userLegacy (paths w), user (paths w), projectLegacy (paths w),
                       project (paths w)] \<and>
            reads (call_state w c s) = reads s @ ps"
    by simp
  have "once_n (call_state w c s) \<le> 1" using n by simp
  from after_calls_fired[OF this, of w cs]
  show "\<exists>n. after_calls w cs (call_state w c s) = (call_state w c s)\<lparr>once_n := n\<rparr>" by blast
next
  fix v assume v: "fst (get w name s) = Inr v"
  obtain x s1 where g: "getSettings w s = (x, s1)" by force
  from v g obtain settings where x: "x = Inr settings" by (cases x) (simp_all add: get_def)
  from getSettings_first_result[OF assms g[unfolded x]] obtain r where
    r: "settings = Some r" "once_n s1 = 1" "once_result s1 = Some r" by blast
  have v': "evaluateSetting w (Some (heap s1 r)) name = Inr v"
    using v g x r by (simp add: get_def)
  have "snd (get w name s) = s1" using g by (simp add: snd_get)
  moreover have "once_n s1 \<le> 1" using r by simp
  from after_calls_fired[OF this, of w cs] obtain n where
    n: "n \<le> 1" "after_calls w cs s1 = s1\<lparr>once_n := n\<rparr>" by blast
  ultimately show "fst (get w name (after_calls w cs (snd (get w name s)))) = Inr v"
    using r v' by (simp add: get_fired)
next
  fix m assume m: "fst (getAll w s) = Inr m"
  obtain x s1 where g: "getSettings w s = (x, s1)" by force
  from m g obtain settings where x: "x = Inr settings"
    by (cases x) (simp_all add: getAll_failure)
  from getSettings_first_result[OF assms g[unfolded x]] obtain r where
    r: "settings = Some r" "once_n s1 = 1" "once_result s1 = Some r" by blast
  have le: "once_n s1 \<le> 1" using r by simp
  note ga = getAll_after_getSettings[OF g[unfolded x r(1)] le r(3) refl]
  have s2: "snd (getAll w s) = s1\<lparr>once_n := once_n s1 - int (length (heap s1 r))\<rparr>"
    using ga by simp
  have le2: "once_n (snd (getAll w s)) \<le> 1" using s2 r by simp
  from after_calls_fired[OF le2, of w cs] obtain n where
    n: "n \<le> 1" "after_calls w cs (snd (getAll w s)) = (snd (getAll w s))\<lparr>once_n := n\<rparr>" by blast
  have s3: "after_calls w cs (snd (getAll w s)) = s1\<lparr>once_n := n\<rparr>" using n s2 by simp
  have "once_n (s1\<lparr>once_n := n\<rparr>) \<le> 1" and "once_result (s1\<lparr>once_n := n\<rparr>) = Some r"
    and "heap (s1\<lparr>once_n := n\<rparr>) r = heap s1 r"
    using n r by simp_all
  from getAll_fired[OF this, of w] ga m s3
  show "fst (getAll w (after_calls w cs (snd (getAll w s)))) = Inr m"
    by simp
qed

theorem settings_computed_once_witness:
  "fst (getAll world_scenario
          (after_calls world_scenario [Get ''balenaUrl'', GetAll]
             (snd (getAll world_scenario (process_start example_defaults))))) =
     Inr [(''dataDirectory'', Str ''/opt/cache/balena''),
          (''balenaUrl'', Str ''balena-staging.com'')]"
proof -
  have h: "once_n (process_start example_defaults) = 2" by (simp add: process_start_def)
  have first: "fst (getAll world_scenario (process_start example_defaults)) =
     Inr [(''dataDirectory'', Str ''/opt/cache/balena''),
          (''balenaUrl'', Str ''balena-staging.com'')]"
    by (simp add: example_defs model_defs)
  note t = settings_computed_once[OF h, of world_scenario GetAll "[Get ''balenaUrl'', GetAll]"
      "''balenaUrl''"]
  from t[THEN conjunct2, THEN conjunct2, THEN conjunct2, rule_format, OF first]
  show ?thesis .
qed

text \<open>
  A failed computation is not run again. The user file does not parse: the first
  \<^verbatim>\<open>getAll\<close> throws the parse error after two reads; the second one reads nothing,
  throws nothing and returns the empty mapping.
\<close>

theorem failed_computation_retry_counterexample:
  "fst (getAll world_bad_user_file (process_start example_defaults)) =
     Inl (Error ''Error parsing config file ~/.balenarc.yml: unexpected end of the stream'') \<and>
   fst (getAll world_bad_user_file
          (snd (getAll world_bad_user_file (process_start example_defaults)))) = Inr [] \<and>
   reads (snd (getAll world_bad_user_file (process_start example_defaults))) =
     [''~/.resinrc.yml'', ''~/.balenarc.yml''] \<and>
   reads (snd (getAll world_bad_user_file
                 (snd (getAll world_bad_user_file (process_start example_defaults))))) =
     [''~/.resinrc.yml'', ''~/.balenarc.yml'']"
  by (simp add: example_defs model_defs)

text \<open>
  C5 (amended): when the merge computation fails in a fresh process, the error surfaces
  to the first caller (\<^verbatim>\<open>get\<close> or \<^verbatim>\<open>getAll\<close>) and no result is cached; the
  computation is not run again: whatever calls follow, they change nothing but the
  counter of \<^verbatim>\<open>_.once\<close>, so no source is read again and no result is cached later.
\<close>

theorem failed_computation_not_retried:
  assumes "once_n s = 2" and "once_result s = None" and "fst (getSettings w s) = Inl e"
  shows "get w name s = (Inl e, snd (getSettings w s)) \<and>
         getAll w s = (Inl e, snd (getSettings w s)) \<and>
         once_result (snd (getSettings w s)) = None \<and>
         (\<exists>n. after_calls w cs (snd (getSettings w s)) = (snd (getSettings w s))\<lparr>once_n := n\<rparr>) \<and>
         reads (after_calls w cs (snd (getSettings w s))) = reads (snd (getSettings w s)) \<and>
         once_result (after_calls w cs (snd (getSettings w s))) = None"
proof -
  obtain s1 where g: "getSettings w s = (Inl e, s1)"
    using assms(3) by (cases "getSettings w s") simp
  obtain rb sb where b: "getSettings_body w (s\<lparr>once_n := 1\<rparr>) = (rb, sb)" by force
  from getSettings_body_effect[OF b] have sb: "once_result sb = None" "once_n sb = 1"
    using assms by simp_all
  have "s1 = sb" using g b assms(1) by (cases rb) (simp_all add: getSettings_first)
  with sb have s1: "once_result s1 = None" "once_n s1 \<le> 1" by simp_all
  from after_calls_fired[OF s1(2), of w cs] obtain n where
    n: "n \<le> 1" "after_calls w cs s1 = s1\<lparr>once_n := n\<rparr>" by blast
  then have "\<exists>n. after_calls w cs s1 = s1\<lparr>once_n := n\<rparr>" by blast
  then show ?thesis
    using g s1 n by (simp add: get_failure getAll_failure)
qed

theorem failed_computation_not_retried_witness:
  "fst (get world_bad_user_file ''balenaUrl'' (process_start example_defaults)) =
     Inl (Error ''Error parsing config file ~/.balenarc.yml: unexpected end of the stream'') \<and>
   reads (after_calls world_bad_user_file [Get ''balenaUrl'', GetAll]
            (snd (getSettings world_bad_user_file (process_start example_defaults)))) =
     [''~/.resinrc.yml'', ''~/.balenarc.yml'']"
proof -
  have h1: "once_n (process_start example_defaults) = 2" by (simp add: process_start_def)
  have h2: "once_result (process_start example_defaults) = None" by (simp add: process_start_def)
  have h3: "fst (getSettings world_bad_user_file (process_start example_defaults)) =
      Inl (Error ''Error parsing config file ~/.balenarc.yml: unexpected end of the stream'')"
    by (simp add: example_defs model_defs)
  have r: "reads (snd (getSettings world_bad_user_file (process_start example_defaults))) =
      [''~/.resinrc.yml'', ''~/.balenarc.yml'']"
    by (simp add: example_defs model_defs)
  note t = failed_computation_not_retried[OF h1 h2 h3, of "''balenaUrl''"
      "[Get ''balenaUrl'', GetAll]"]
  from t have "fst (get world_bad_user_file ''balenaUrl'' (process_start example_defaults)) =
     Inl (Error ''Error parsing config file ~/.balenarc.yml: unexpected end of the stream'')"
    by (elim conjE) (simp only: fst_conv)
  moreover from t have "reads (after_calls world_bad_user_file [Get ''balenaUrl'', GetAll]
            (snd (getSettings world_bad_user_file (process_start example_defaults)))) =
      reads (snd (getSettings world_bad_user_file (process_start example_defaults)))"
    by (elim conjE)
  ultimately show ?thesis using r by (simp only:)
qed

text \<open>
  C9: no sequence of \<^verbatim>\<open>get\<close> and \<^verbatim>\<open>getAll\<close> calls changes the \<^verbatim>\<open>defaults\<close>
  object: the merge writes to the object that the literal \<^verbatim>\<open>{}\<close> creates, never to an
  object that existed before the call.
\<close>

theorem defaults_never_mutated:
  assumes "defaults_ref < next_ref s"
  shows "heap (after_calls w cs s) defaults_ref = heap s defaults_ref"
  using frame_after_calls[of s w cs] assms by (simp add: frame_def)

theorem defaults_never_mutated_witness:
  "heap (after_calls world_scenario [GetAll, Get ''balenaUrl'', GetAll]
           (process_start example_defaults)) defaults_ref = example_defaults"
proof -
  have h: "defaults_ref < next_ref (process_start example_defaults)"
    by (simp add: process_start_def)
  have "heap (process_start example_defaults) defaults_ref = example_defaults"
    by (simp add: process_start_def)
  with defaults_never_mutated[OF h, of world_scenario "[GetAll, Get ''balenaUrl'', GetAll]"]
  show ?thesis by (simp only:)
qed

section \<open>The setting accessor: unknown names\<close>

text \<open>
  C4: for every name that is not a key of the resolved configuration that
  \<^verbatim>\<open>getSettings\<close> returns, \<^verbatim>\<open>get\<close> returns \<^verbatim>\<open>undefined\<close> and throws nothing.
\<close>

theorem get_unknown_name:
  assumes "fst (getSettings w s) = Inr (Some r)"
    and "name \<notin> keys (heap (snd (getSettings w s)) r)"
  shows "get w name s = (Inr Undefined, snd (getSettings w s))"
proof -
  obtain s' where g: "getSettings w s = (Inr (Some r), s')"
    using assms(1) by (cases "getSettings w s") simp
  with assms(2) have "map_of (heap s' r) name = None"
    by (simp add: keys_def map_of_eq_None_iff)
  with get_success[OF g, of name] g show ?thesis by simp
qed

theorem get_unknown_name_witness:
  "get world_scenario ''apiUrl'' (process_start example_defaults) =
     (Inr Undefined, snd (getSettings world_scenario (process_start example_defaults)))"
proof -
  have h1: "fst (getSettings world_scenario (process_start example_defaults)) = Inr (Some 1)"
    by (simp add: example_defs model_defs)
  have h2: "''apiUrl'' \<notin>
      keys (heap (snd (getSettings world_scenario (process_start example_defaults))) 1)"
    by (simp add: example_defs model_defs)
  from get_unknown_name[OF h1 h2] show ?thesis .
qed

end
